theory Spec2Isabelle
  imports Complex_Main "HOL-Library.Char_ord" "HOL-Library.List_Lexorder" "HOL-Library.Multiset"
begin

section \<open>Airline satisfaction dashboard: the filter-and-aggregate pipeline of app.py\<close>

text \<open>
  The development follows \<^verbatim>\<open>src/app.py\<close>: the label normaliser applied at
  load time, the module globals \<^verbatim>\<open>year_min\<close> and \<^verbatim>\<open>year_max\<close>, and the single
  callback \<^verbatim>\<open>render\<close> with its row mask and its aggregation passes. Python strings
  are \<open>string\<close> (the UTF-8 bytes), Python integers are \<open>int\<close>, counts are \<open>nat\<close>,
  a pandas cell that may be NaN is an \<open>option\<close>, and a raise is an \<open>Inl\<close>.
\<close>

subsection \<open>Python string operations used by the normaliser\<close>

text \<open>
  \<^verbatim>\<open>str.lower()\<close> on the ASCII letters; bytes outside \<open>A\<close>..\<open>Z\<close> are kept. (The two
  code points whose Unicode lower case contains an ASCII letter, U+0130 and U+212A, yield
  \<open>i\<close> followed by a combining dot and \<open>k\<close>; neither can complete one of the three
  tokens searched below.)
\<close>

definition lower_char :: "char \<Rightarrow> char" where
  "lower_char c =
     (let n = (of_char c :: nat) in if 65 \<le> n \<and> n \<le> 90 then char_of (n + 32) else c)"

definition lower :: "string \<Rightarrow> string" where
  "lower s = map lower_char s"

text \<open>
  \<^verbatim>\<open>str.strip()\<close>: the ASCII characters for which \<^verbatim>\<open>str.isspace()\<close> holds
  (tab, line feed, vertical tab, form feed, carriage return, the four separators
  0x1C..0x1F and the space) are removed from both ends.
\<close>

definition isspace :: "char \<Rightarrow> bool" where
  "isspace c =
     (let n = (of_char c :: nat) in (9 \<le> n \<and> n \<le> 13) \<or> (28 \<le> n \<and> n \<le> 32))"

definition strip :: "string \<Rightarrow> string" where
  "strip s = rev (dropWhile isspace (rev (dropWhile isspace s)))"

text \<open>\<^verbatim>\<open>s.startswith(t)\<close> and the substring test \<^verbatim>\<open>t in s\<close>.\<close>

fun startswith :: "string \<Rightarrow> string \<Rightarrow> bool" where
  "startswith s [] = True"
| "startswith [] (t # ts) = False"
| "startswith (c # cs) (t # ts) = (c = t \<and> startswith cs ts)"

fun str_in :: "string \<Rightarrow> string \<Rightarrow> bool" where
  "str_in t [] = (t = [])"
| "str_in t (c # cs) = (startswith (c # cs) t \<or> str_in t cs)"

subsection \<open>The satisfaction normaliser (app.py, lines 18 to 27)\<close>

text \<open>
  The argument is a cell of the \<^verbatim>\<open>satisfaction\<close> column: \<open>None\<close> is the NaN that
  \<^verbatim>\<open>pd.isna\<close> detects, \<open>Some s\<close> a string (\<^verbatim>\<open>str(val)\<close> is then \<open>s\<close> itself).
\<close>

definition normalize_satisfaction :: "string option \<Rightarrow> string" where
  "normalize_satisfaction val =
     (case val of
        None \<Rightarrow> ''unknown''
      | Some v \<Rightarrow>
          (let s = lower (strip v) in
           if str_in ''satisf'' s \<and> \<not> str_in ''neutral'' s \<and> \<not> str_in ''diss'' s
             then ''satisfied''
           else if str_in ''neutral'' s \<or> str_in ''diss'' s
             then ''neutral or dissatisfied''
           else ''neutral or dissatisfied''))"

subsection \<open>The data set (app.py, lines 13 to 61)\<close>

datatype py_error = ValueError | ZeroDivisionError | KeyError

text \<open>
  A row of the table once the synthetic columns are in place. \<^verbatim>\<open>Airline\<close> and
  \<^verbatim>\<open>Year\<close> are drawn by numpy's generator at load time and are inputs here;
  \<^verbatim>\<open>Class\<close>, \<^verbatim>\<open>Type of Travel\<close> and the two delay columns may hold NaN
  (\<open>None\<close>); a column the file lacks is a column of NaN.
\<close>

record csv_row =
  satisfaction :: "string option"
  Airline :: string
  Year :: int
  Class :: "string option"
  Type_of_Travel :: "string option"
  Departure_Delay :: "real option"
  Arrival_Delay :: "real option"

record row = csv_row +
  satisfaction_norm :: string

text \<open>\<^verbatim>\<open>df["satisfaction_norm"] = df["satisfaction"].apply(normalize_satisfaction)\<close>\<close>

definition enrich :: "csv_row \<Rightarrow> row" where
  "enrich r = csv_row.extend r (row.fields (normalize_satisfaction (satisfaction r)))"

text \<open>
  \<^verbatim>\<open>int(df["Year"].min())\<close>: the minimum of an empty column is NaN, and
  \<^verbatim>\<open>int(nan)\<close> raises ValueError.
\<close>

definition series_min :: "int list \<Rightarrow> py_error + int" where
  "series_min xs = (case xs of [] \<Rightarrow> Inl ValueError | x # ys \<Rightarrow> Inr (fold min ys x))"

definition series_max :: "int list \<Rightarrow> py_error + int" where
  "series_max xs = (case xs of [] \<Rightarrow> Inl ValueError | x # ys \<Rightarrow> Inr (fold max ys x))"

text \<open>The module globals \<^verbatim>\<open>df\<close>, \<^verbatim>\<open>year_min\<close> and \<^verbatim>\<open>year_max\<close>.\<close>

record globals =
  df :: "row list"
  year_min :: int
  year_max :: int

definition load_enrich :: "csv_row list \<Rightarrow> py_error + globals" where
  "load_enrich csv =
     (let d = map enrich csv in
      case series_min (map Year d) of
        Inl e \<Rightarrow> Inl e
      | Inr lo \<Rightarrow>
          (case series_max (map Year d) of
             Inl e \<Rightarrow> Inl e
           | Inr hi \<Rightarrow> Inr \<lparr>df = d, year_min = lo, year_max = hi\<rparr>))"

subsection \<open>pandas operations used by the callback\<close>

text \<open>\<^verbatim>\<open>Series.isin(values)\<close>, one boolean per cell.\<close>

definition isin :: "'a list \<Rightarrow> 'a list \<Rightarrow> bool list" where
  "isin col vals = map (\<lambda>x. x \<in> set vals) col"

text \<open>
  The right operand of \<^verbatim>\<open>&\<close> is a boolean Series or the Python scalar
  \<^verbatim>\<open>True\<close>, which pandas broadcasts.
\<close>

datatype operand = Series "bool list" | Scalar bool

fun mask_and :: "bool list \<Rightarrow> operand \<Rightarrow> bool list" where
  "mask_and xs (Series ys) = map (\<lambda>(x, y). x \<and> y) (zip xs ys)"
| "mask_and xs (Scalar b) = map (\<lambda>x. x \<and> b) xs"

text \<open>\<^verbatim>\<open>df.loc[mask]\<close>: the rows whose mask bit is set, in table order.\<close>

definition loc_mask :: "'a list \<Rightarrow> bool list \<Rightarrow> 'a list" where
  "loc_mask rows m = map fst (filter snd (zip rows m))"

text \<open>
  \<^verbatim>\<open>Series.value_counts()\<close>: one entry per distinct value, in order of first
  appearance, then sorted by count, largest first. pandas sorts descending by
  reversing, sorting ascending and reversing again; the order among equal counts is not
  relied on below.
\<close>

definition uniq :: "'a list \<Rightarrow> 'a list" where
  "uniq xs = rev (remdups (rev xs))"

definition sort_desc :: "('a \<Rightarrow> nat) \<Rightarrow> 'a list \<Rightarrow> 'a list" where
  "sort_desc f xs = rev (sort_key f (rev xs))"

definition value_counts :: "'a list \<Rightarrow> ('a \<times> nat) list" where
  "value_counts xs = sort_desc snd (map (\<lambda>v. (v, count_list xs v)) (uniq xs))"

text \<open>\<^verbatim>\<open>Series.get(key, default)\<close>\<close>

definition series_get :: "('a \<times> nat) list \<Rightarrow> 'a \<Rightarrow> nat \<Rightarrow> nat" where
  "series_get s k dflt = (case map_of s k of None \<Rightarrow> dflt | Some c \<Rightarrow> c)"

text \<open>
  \<^verbatim>\<open>Series.mean()\<close> skips NaN and is NaN when nothing is left. Floating-point
  numbers are modelled by the reals they round.
\<close>

definition series_mean :: "real option list \<Rightarrow> real option" where
  "series_mean col =
     (let vs = List.map_filter id col in
      if vs = [] then None else Some (sum_list vs / real (length vs)))"

text \<open>
  A frame of counts: the column labels, and per index key one cell for each column.
  \<^verbatim>\<open>groupby([key, label]).size().unstack(fill_value=0)\<close> (and the equivalent
  \<^verbatim>\<open>groupby(key)[label].value_counts().unstack(fill_value=0)\<close>) has the sorted
  distinct keys as index, the sorted distinct labels as columns, and in each cell the
  number of rows with that key and label, \<open>0\<close> for a pair that does not occur.
\<close>

type_synonym 'k frame = "string list \<times> ('k \<times> (string \<times> nat) list) list"

definition unstack_counts :: "('k::linorder \<times> string) list \<Rightarrow> 'k frame" where
  "unstack_counts kv =
     (let cols = sort (remdups (map snd kv)) in
      (cols,
       map (\<lambda>k. (k, map (\<lambda>c. (c, count_list kv (k, c))) cols))
           (sort (remdups (map fst kv)))))"

text \<open>The cell of a frame row under a column label.\<close>

definition cell :: "'k \<times> (string \<times> nat) list \<Rightarrow> string \<Rightarrow> nat" where
  "cell r c = (case map_of (snd r) c of None \<Rightarrow> 0 | Some n \<Rightarrow> n)"

text \<open>\<^verbatim>\<open>if name not in grp.columns: grp[name] = 0\<close>\<close>

definition default_column :: "string \<Rightarrow> 'k frame \<Rightarrow> 'k frame" where
  "default_column name f =
     (if name \<in> set (fst f) then f
      else (fst f @ [name], map (\<lambda>(k, cs). (k, cs @ [(name, 0)])) (snd f)))"

text \<open>
  \<^verbatim>\<open>grp.assign(Total=grp[a] + grp[b])\<close>: reading a column that the frame does not
  have raises KeyError.
\<close>

definition assign_total :: "string \<Rightarrow> string \<Rightarrow> 'k frame \<Rightarrow> py_error + 'k frame" where
  "assign_total a b f =
     (if a \<in> set (fst f) \<and> b \<in> set (fst f)
      then Inr (fst f @ [''Total''],
                map (\<lambda>r. (fst r, snd r @ [(''Total'', cell r a + cell r b)])) (snd f))
      else Inl KeyError)"

text \<open>\<^verbatim>\<open>sort_values("Total", ascending=False)\<close>\<close>

definition sort_values_desc :: "string \<Rightarrow> 'k frame \<Rightarrow> 'k frame" where
  "sort_values_desc c f = (fst f, sort_desc (\<lambda>r. cell r c) (snd f))"

text \<open>Python's \<^verbatim>\<open>%\<close> and \<^verbatim>\<open>/\<close> on integers raise on a zero divisor.\<close>

definition py_mod :: "int \<Rightarrow> int \<Rightarrow> py_error + int" where
  "py_mod a b = (if b = 0 then Inl ZeroDivisionError else Inr (a mod b))"

definition py_truediv :: "nat \<Rightarrow> nat \<Rightarrow> py_error + real" where
  "py_truediv a b = (if b = 0 then Inl ZeroDivisionError else Inr (real a / real b))"

subsection \<open>The callback \<^verbatim>\<open>render\<close> (app.py, lines 203 to 304)\<close>

text \<open>
  Lines 206 to 213: the current year and the value written back to the slider.
\<close>

definition cursor :: "globals \<Rightarrow> int \<Rightarrow> int \<Rightarrow> bool \<Rightarrow> py_error + int \<times> int" where
  "cursor g n slider_year is_playing =
     (if is_playing then
        (let span = year_max g - year_min g + 1 in
         case py_mod n span of
           Inl e \<Rightarrow> Inl e
         | Inr m \<Rightarrow> (let current_year = year_min g + m in Inr (current_year, current_year)))
      else Inr (slider_year, slider_year))"

text \<open>
  Lines 216 to 222: the row mask and the filtered table \<^verbatim>\<open>d\<close>. The selections
  are lists, as the multi-select dropdowns deliver them; an empty list is falsy.
\<close>

definition row_mask :: "row list \<Rightarrow> string list \<Rightarrow> string list \<Rightarrow> string list \<Rightarrow> int \<Rightarrow> bool list" where
  "row_mask d airlines_sel class_sel travel_sel current_year =
     mask_and
       (mask_and
          (mask_and (isin (map Airline d) airlines_sel)
             (if class_sel \<noteq> [] then Series (isin (map Class d) (map Some class_sel))
              else Scalar True))
          (if travel_sel \<noteq> [] then Series (isin (map Type_of_Travel d) (map Some travel_sel))
           else Scalar True))
       (Series (map (\<lambda>y. y \<le> current_year) (map Year d)))"

definition filtered :: "row list \<Rightarrow> string list \<Rightarrow> string list \<Rightarrow> string list \<Rightarrow> int \<Rightarrow> row list" where
  "filtered d airlines_sel class_sel travel_sel current_year =
     loc_mask d (row_mask d airlines_sel class_sel travel_sel current_year)"

text \<open>
  Lines 225 to 239: the KPI values, before they are formatted into cards. A mean that
  is NaN is \<open>None\<close>.
\<close>

record kpis =
  total_records :: nat
  sat :: nat
  diss :: nat
  sat_pct :: real
  avg_delay_dep :: "real option"
  avg_delay_arr :: "real option"
  kpi_year :: int

definition compute_kpis :: "row list \<Rightarrow> int \<Rightarrow> py_error + kpis" where
  "compute_kpis d current_year =
     (let sat_counts = value_counts (map satisfaction_norm d);
          s = series_get sat_counts ''satisfied'' 0;
          u = series_get sat_counts ''neutral or dissatisfied'' 0
      in case py_truediv s (max 1 (s + u)) of
           Inl e \<Rightarrow> Inl e
         | Inr q \<Rightarrow>
             Inr \<lparr>total_records = length d, sat = s, diss = u, sat_pct = q * 100,
                  avg_delay_dep = series_mean (map Departure_Delay d),
                  avg_delay_arr = series_mean (map Arrival_Delay d),
                  kpi_year = current_year\<rparr>)"

text \<open>
  Lines 242 to 244: the rows of exactly the current year. When none is left the source
  takes \<^verbatim>\<open>d.tail(0)\<close>, the empty table again.
\<close>

definition year_slice :: "row list \<Rightarrow> int \<Rightarrow> row list" where
  "year_slice d current_year =
     (let d_year = loc_mask d (map (\<lambda>y. y = current_year) (map Year d)) in
      if d_year = [] then [] else d_year)"

text \<open>Lines 256 to 259: the per-airline frame \<^verbatim>\<open>grp\<close>.\<close>

definition top_airlines :: "row list \<Rightarrow> py_error + string frame" where
  "top_airlines d =
     (let grp = unstack_counts (map (\<lambda>r. (Airline r, satisfaction_norm r)) d);
          grp = default_column ''satisfied'' grp;
          grp = default_column ''neutral or dissatisfied'' grp
      in case assign_total ''satisfied'' ''neutral or dissatisfied'' grp of
           Inl e \<Rightarrow> Inl e
         | Inr grp \<Rightarrow> Inr (sort_values_desc ''Total'' grp))"

text \<open>
  Lines 271 to 278: the per-year frame, its placeholder, and the two traces; a trace is
  drawn only for a column the frame has.
\<close>

definition year_trend :: "row list \<Rightarrow> int \<Rightarrow> int frame" where
  "year_trend d current_year =
     (let yt = unstack_counts (map (\<lambda>r. (Year r, satisfaction_norm r)) d) in
      if snd yt = []
      then ([''satisfied'', ''neutral or dissatisfied''],
            [(current_year, [(''satisfied'', 0), (''neutral or dissatisfied'', 0)])])
      else yt)"

definition trace :: "int frame \<Rightarrow> string \<Rightarrow> (int list \<times> nat list) option" where
  "trace yt name =
     (if name \<in> set (fst yt)
      then Some (map fst (snd yt), map (\<lambda>r. cell r name) (snd yt))
      else None)"

text \<open>The data handed to the outputs of the callback.\<close>

record view =
  slider_val :: int
  current_year_label :: int
  kpi_row :: kpis
  facet_fig :: "row list"
  top_fig :: "string frame"
  trend_satisfied :: "(int list \<times> nat list) option"
  trend_dissatisfied :: "(int list \<times> nat list) option"
  pie_counts :: "(string \<times> nat) list"
  interval_disabled :: bool

definition render ::
  "globals \<Rightarrow> int \<Rightarrow> int \<Rightarrow> string list \<Rightarrow> string list \<Rightarrow> string list \<Rightarrow> bool
     \<Rightarrow> py_error + view" where
  "render g n slider_year airlines_sel class_sel travel_sel is_playing =
     (case cursor g n slider_year is_playing of
        Inl e \<Rightarrow> Inl e
      | Inr (current_year, sv) \<Rightarrow>
          (let d = filtered (df g) airlines_sel class_sel travel_sel current_year in
           case compute_kpis d current_year of
             Inl e \<Rightarrow> Inl e
           | Inr k \<Rightarrow>
               (let d_year = year_slice d current_year in
                case top_airlines d of
                  Inl e \<Rightarrow> Inl e
                | Inr grp \<Rightarrow>
                    (let yt = year_trend d current_year in
                     Inr \<lparr>slider_val = sv, current_year_label = current_year, kpi_row = k,
                          facet_fig = d_year, top_fig = grp,
                          trend_satisfied = trace yt ''satisfied'',
                          trend_dissatisfied = trace yt ''neutral or dissatisfied'',
                          pie_counts = value_counts (map satisfaction_norm d_year),
                          interval_disabled = (\<not> is_playing)\<rparr>))))"

subsection \<open>The page: controls, events and the callbacks they fire\<close>

text \<open>
  The inputs of \<^verbatim>\<open>render\<close> held by the page: the slider value, the play state
  store, the tick counter and the three dropdowns.
\<close>

record page =
  year_slider :: int
  play_state :: bool
  n_intervals :: int
  airline_dd :: "string list"
  class_dd :: "string list"
  travel_dd :: "string list"

text \<open>
  The layout (lines 82 to 158): the slider starts at \<^verbatim>\<open>year_min\<close>, playback is on,
  the counter is \<open>0\<close>, the first six airlines and every class and travel type are
  selected.
\<close>

definition layout :: "globals \<Rightarrow> page" where
  "layout g =
     \<lparr>year_slider = year_min g, play_state = True, n_intervals = 0,
      airline_dd = take 6 (sort (remdups (map Airline (df g)))),
      class_dd = sort (remdups (List.map_filter Class (df g))),
      travel_dd = sort (remdups (List.map_filter Type_of_Travel (df g)))\<rparr>"

text \<open>
  What can happen on the page: the interval fires, the user moves the slider, clicks
  Play/Pause (\<^verbatim>\<open>toggle_play\<close>), or changes a dropdown. The slider is declared
  with \<^verbatim>\<open>min=year_min, max=year_max, step=1\<close>, so it can only be moved to a year in that
  range.
\<close>

datatype event =
    Tick
  | Slide int
  | Click
  | Pick_airlines "string list"
  | Pick_classes "string list"
  | Pick_travel "string list"

definition toggle_play :: "bool \<Rightarrow> bool" where
  "toggle_play is_playing = (\<not> is_playing)"

fun possible :: "globals \<Rightarrow> event \<Rightarrow> bool" where
  "possible g (Slide v) = (year_min g \<le> v \<and> v \<le> year_max g)"
| "possible g ev = True"

fun input :: "event \<Rightarrow> page \<Rightarrow> page" where
  "input Tick p = p\<lparr>n_intervals := n_intervals p + 1\<rparr>"
| "input (Slide v) p = p\<lparr>year_slider := v\<rparr>"
| "input Click p = p\<lparr>play_state := toggle_play (play_state p)\<rparr>"
| "input (Pick_airlines xs) p = p\<lparr>airline_dd := xs\<rparr>"
| "input (Pick_classes xs) p = p\<lparr>class_dd := xs\<rparr>"
| "input (Pick_travel xs) p = p\<lparr>travel_dd := xs\<rparr>"

text \<open>\<^verbatim>\<open>render\<close> at the inputs the page holds.\<close>

definition render_page :: "globals \<Rightarrow> page \<Rightarrow> py_error + view" where
  "render_page g p =
     render g (n_intervals p) (year_slider p) (airline_dd p) (class_dd p) (travel_dd p)
       (play_state p)"

text \<open>
  After an input changes, \<^verbatim>\<open>render\<close> runs and its first output is written to
  the slider; a callback that raises leaves the page as it is.
\<close>

definition update :: "globals \<Rightarrow> page \<Rightarrow> page" where
  "update g p =
     (case render_page g p of
        Inl e \<Rightarrow> p
      | Inr v \<Rightarrow> p\<lparr>year_slider := slider_val v\<rparr>)"

text \<open>
  The pages at which \<^verbatim>\<open>render\<close> fires: the layout when the page opens, and
  afterwards the page as the previous run left it, changed by one event.
\<close>

inductive reachable :: "globals \<Rightarrow> page \<Rightarrow> bool" for g :: globals where
  start: "reachable g (layout g)"
| step: "reachable g p \<Longrightarrow> possible g ev \<Longrightarrow> reachable g (input ev (update g p))"

section \<open>Properties\<close>

subsection \<open>Substring search, case folding and stripping\<close>

lemma startswith_iff: "startswith s t \<longleftrightarrow> (\<exists>ss. s = t @ ss)"
  by (induction s t rule: startswith.induct) auto

lemma str_in_iff: "str_in t s \<longleftrightarrow> (\<exists>ps ss. s = ps @ t @ ss)"
proof (induction s)
  case Nil
  then show ?case by auto
next
  case (Cons c cs)
  show ?case
  proof
    assume "str_in t (c # cs)"
    then consider "startswith (c # cs) t" | "str_in t cs" by auto
    then show "\<exists>ps ss. c # cs = ps @ t @ ss"
    proof cases
      case 1
      then obtain ss where "c # cs = t @ ss" by (auto simp: startswith_iff)
      then have "c # cs = [] @ t @ ss" by simp
      then show ?thesis by blast
    next
      case 2
      then obtain ps ss where "cs = ps @ t @ ss" using Cons.IH by auto
      then have "c # cs = (c # ps) @ t @ ss" by simp
      then show ?thesis by blast
    qed
  next
    assume "\<exists>ps ss. c # cs = ps @ t @ ss"
    then obtain ps ss where eq: "c # cs = ps @ t @ ss" by auto
    show "str_in t (c # cs)"
    proof (cases ps)
      case Nil
      with eq have "startswith (c # cs) t" by (auto simp: startswith_iff)
      then show ?thesis by simp
    next
      case (Cons p ps')
      with eq have "cs = ps' @ t @ ss" by simp
      then have "str_in t cs" using Cons.IH by blast
      then show ?thesis by simp
    qed
  qed
qed

lemma str_in_rev: "str_in (rev t) (rev s) = str_in t s"
proof -
  have "(\<exists>ps ss. rev s = ps @ rev t @ ss) \<longleftrightarrow> (\<exists>ps ss. s = ps @ t @ ss)"
  proof
    assume "\<exists>ps ss. rev s = ps @ rev t @ ss"
    then obtain ps ss where "rev s = ps @ rev t @ ss" by auto
    then have "rev (rev s) = rev (ps @ rev t @ ss)" by simp
    then have "s = rev ss @ t @ rev ps" by simp
    then show "\<exists>ps ss. s = ps @ t @ ss" by blast
  next
    assume "\<exists>ps ss. s = ps @ t @ ss"
    then obtain ps ss where "s = ps @ t @ ss" by auto
    then have "rev s = rev ss @ rev t @ rev ps" by simp
    then show "\<exists>ps ss. rev s = ps @ rev t @ ss" by blast
  qed
  then show ?thesis by (simp add: str_in_iff)
qed

lemma str_in_dropWhile:
  assumes "\<not> P a"
  shows "str_in (a # t) (dropWhile P s) = str_in (a # t) s"
  using assms by (induction s) auto

lemma str_in_strip:
  assumes "t \<noteq> []" and "\<not> isspace (hd t)" and "\<not> isspace (last t)"
  shows "str_in t (strip s) = str_in t s"
proof -
  from assms obtain a t' where t: "t = a # t'" and a: "\<not> isspace a"
    by (cases t) auto
  from assms obtain b u where rt: "rev t = b # u" and b: "\<not> isspace b"
    by (cases "rev t") (auto simp: last_rev hd_rev)
  have "str_in t (strip s) = str_in (rev t) (dropWhile isspace (rev (dropWhile isspace s)))"
    unfolding strip_def using str_in_rev [of "rev t" "dropWhile isspace (rev (dropWhile isspace s))"]
    by simp
  also have "\<dots> = str_in (rev t) (rev (dropWhile isspace s))"
    unfolding rt using b by (rule str_in_dropWhile)
  also have "\<dots> = str_in t (dropWhile isspace s)"
    by (rule str_in_rev)
  also have "\<dots> = str_in t s"
    unfolding t using a by (rule str_in_dropWhile)
  finally show ?thesis .
qed

lemma isspace_lower_char: "isspace (lower_char c) = isspace c"
  by (auto simp: isspace_def lower_char_def Let_def)

lemma lower_strip: "lower (strip s) = strip (lower s)"
proof -
  have comp: "isspace \<circ> lower_char = isspace"
    by (rule ext) (simp add: isspace_lower_char)
  show ?thesis
    by (simp add: lower_def strip_def rev_map dropWhile_map comp)
qed

lemma token_in_lower_strip:
  assumes "t \<noteq> []" and "\<not> isspace (hd t)" and "\<not> isspace (last t)"
  shows "str_in t (lower (strip s)) \<longleftrightarrow> (\<exists>ps ss. lower s = ps @ t @ ss)"
proof -
  have "str_in t (lower (strip s)) = str_in t (lower s)"
    unfolding lower_strip using assms by (rule str_in_strip)
  then show ?thesis by (simp add: str_in_iff)
qed

lemma tok_satisf: "str_in ''satisf'' (lower (strip s)) \<longleftrightarrow> (\<exists>ps ss. lower s = ps @ ''satisf'' @ ss)"
  by (rule token_in_lower_strip) (simp_all add: isspace_def)

lemma tok_neutral: "str_in ''neutral'' (lower (strip s)) \<longleftrightarrow> (\<exists>ps ss. lower s = ps @ ''neutral'' @ ss)"
  by (rule token_in_lower_strip) (simp_all add: isspace_def)

lemma tok_diss: "str_in ''diss'' (lower (strip s)) \<longleftrightarrow> (\<exists>ps ss. lower s = ps @ ''diss'' @ ss)"
  by (rule token_in_lower_strip) (simp_all add: isspace_def)

subsection \<open>The satisfaction normaliser\<close>

text \<open>
  On strings the normaliser has two buckets: a string whose ASCII lower-casing contains
  \<open>satisf\<close> and contains neither \<open>neutral\<close> nor \<open>diss\<close> is labelled
  \<open>satisfied\<close>, every other string is labelled \<open>neutral or dissatisfied\<close>.
  Stripping the ends never changes the label.
\<close>

lemma normalize_satisfaction_strings:
  "normalize_satisfaction (Some v) =
      (if (\<exists>ps ss. lower v = ps @ ''satisf'' @ ss)
          \<and> \<not> (\<exists>ps ss. lower v = ps @ ''neutral'' @ ss)
          \<and> \<not> (\<exists>ps ss. lower v = ps @ ''diss'' @ ss)
       then ''satisfied'' else ''neutral or dissatisfied'')"
  unfolding normalize_satisfaction_def Let_def option.case tok_satisf tok_neutral tok_diss
  by simp

text \<open>
  C1. The normaliser is to return one of \<open>satisfied\<close> and
  \<open>neutral or dissatisfied\<close> on every input, null included, null going to the negative
  bucket; the comment above it (line 17) announces two buckets and the callback reads
  only these two labels. At the null input the code returns a third label,
  \<open>unknown\<close>, which is neither bucket.
\<close>

theorem normalize_satisfaction_null:
  "normalize_satisfaction None = ''unknown''
   \<and> normalize_satisfaction None \<noteq> ''satisfied''
   \<and> normalize_satisfaction None \<noteq> ''neutral or dissatisfied''"
  by (simp add: normalize_satisfaction_def)

subsection \<open>The row filter\<close>

lemma loc_mask_map: "loc_mask d (map P d) = filter P d"
  by (induction d) (simp_all add: loc_mask_def)

lemma row_mask_eq:
  "row_mask d a c t y =
     map (\<lambda>r. Airline r \<in> set a
              \<and> (c = [] \<or> Class r \<in> Some ` set c)
              \<and> (t = [] \<or> Type_of_Travel r \<in> Some ` set t)
              \<and> Year r \<le> y) d"
  by (induction d) (auto simp: row_mask_def isin_def)

lemma filtered_eq_filter:
  "filtered d a c t y =
     filter (\<lambda>r. Airline r \<in> set a
              \<and> (c = [] \<or> Class r \<in> Some ` set c)
              \<and> (t = [] \<or> Type_of_Travel r \<in> Some ` set t)
              \<and> Year r \<le> y) d"
  unfolding filtered_def row_mask_eq by (rule loc_mask_map)

lemma length_filter_mono:
  "(\<And>x. x \<in> set xs \<Longrightarrow> P x \<Longrightarrow> Q x) \<Longrightarrow> length (filter P xs) \<le> length (filter Q xs)"
  by (induction xs) auto

text \<open>
  C3. The filtered table is exactly the rows of the data set, in table order, whose
  airline is selected, whose class is selected unless no class is selected, whose travel
  type is selected unless no travel type is selected, and whose year is at most the
  current year. Clearing the class or the travel-type selection never yields fewer rows.
\<close>

theorem row_filter_exact:
  "filtered d a c t y =
     filter (\<lambda>r. Airline r \<in> set a
              \<and> (c = [] \<or> Class r \<in> Some ` set c)
              \<and> (t = [] \<or> Type_of_Travel r \<in> Some ` set t)
              \<and> Year r \<le> y) d
   \<and> length (filtered d a c t y) \<le> length (filtered d a [] t y)
   \<and> length (filtered d a c t y) \<le> length (filtered d a c [] y)"
proof -
  have "length (filtered d a c t y) \<le> length (filtered d a [] t y)"
    unfolding filtered_eq_filter by (rule length_filter_mono) simp
  moreover have "length (filtered d a c t y) \<le> length (filtered d a c [] y)"
    unfolding filtered_eq_filter by (rule length_filter_mono) simp
  ultimately show ?thesis
    using filtered_eq_filter [of d a c t y] by blast
qed

text \<open>
  C7. For fixed selections the number of filtered rows does not decrease when the
  current year moves from \<open>y\<close> to \<open>y + 1\<close>.
\<close>

theorem cumulative_filter_monotone:
  "length (filtered d a c t y) \<le> length (filtered d a c t (y + 1))"
  unfolding filtered_eq_filter by (rule length_filter_mono) simp

subsection \<open>Summary counts\<close>

lemma mset_sort_desc: "mset (sort_desc f xs) = mset xs"
  by (simp add: sort_desc_def)

lemma set_sort_desc: "set (sort_desc f xs) = set xs"
  by (simp add: sort_desc_def)

lemma sum_list_sort_desc:
  fixes g :: "'a \<Rightarrow> nat"
  shows "sum_list (map g (sort_desc f xs)) = sum_list (map g xs)"
proof -
  have "mset (map g (sort_desc f xs)) = mset (map g xs)"
    by (simp add: mset_sort_desc)
  then have "sum_mset (mset (map g (sort_desc f xs))) = sum_mset (mset (map g xs))"
    by simp
  then show ?thesis by (simp only: sum_mset_sum_list)
qed

lemma distinct_map_sort_desc: "distinct (map g (sort_desc f xs)) = distinct (map g xs)"
proof -
  have "mset (map g (sort_desc f xs)) = mset (map g xs)"
    by (simp add: mset_sort_desc)
  then show ?thesis by (rule mset_eq_imp_distinct_iff)
qed

lemma descending_sort_desc: "sorted (rev (map f (sort_desc f xs)))"
  by (simp add: sort_desc_def rev_map)

lemma set_uniq: "set (uniq xs) = set xs"
  by (simp add: uniq_def)

lemma distinct_uniq: "distinct (uniq xs)"
  by (simp add: uniq_def)

lemma map_of_value_counts:
  "map_of (value_counts xs) v = (if v \<in> set xs then Some (count_list xs v) else None)"
proof -
  let ?ps = "map (\<lambda>v. (v, count_list xs v)) (uniq xs)"
  have fst_ps: "map fst ?ps = uniq xs"
    by (simp add: comp_def)
  have d1: "distinct (map fst ?ps)"
    unfolding fst_ps by (rule distinct_uniq)
  have d2: "distinct (map fst (sort_desc snd ?ps))"
    using d1 by (simp only: distinct_map_sort_desc)
  have "map_of (sort_desc snd ?ps) = map_of ?ps"
    using map_of_inject_set [OF d2 d1] by (simp add: set_sort_desc)
  then have "map_of (value_counts xs) v = map_of ?ps v"
    by (simp add: value_counts_def)
  also have "\<dots> = (if v \<in> set xs then Some (count_list xs v) else None)"
    by (simp add: map_of_map_restrict restrict_map_def set_uniq)
  finally show ?thesis .
qed

lemma series_get_value_counts: "series_get (value_counts xs) v 0 = count_list xs v"
  by (simp add: series_get_def map_of_value_counts count_notin)

lemma compute_kpis_Inr:
  "compute_kpis d y =
     Inr \<lparr>total_records = length d,
          sat = count_list (map satisfaction_norm d) ''satisfied'',
          diss = count_list (map satisfaction_norm d) ''neutral or dissatisfied'',
          sat_pct = real (count_list (map satisfaction_norm d) ''satisfied'')
                    / real (max 1 (count_list (map satisfaction_norm d) ''satisfied''
                                   + count_list (map satisfaction_norm d) ''neutral or dissatisfied''))
                    * 100,
          avg_delay_dep = series_mean (map Departure_Delay d),
          avg_delay_arr = series_mean (map Arrival_Delay d),
          kpi_year = y\<rparr>"
  by (simp add: compute_kpis_def Let_def series_get_value_counts py_truediv_def)

lemma scale_unit_interval:
  fixes q :: real
  assumes "0 \<le> q" and "q \<le> 1"
  shows "0 \<le> q * 100 \<and> q * 100 \<le> 100"
  using assms by simp

lemma pct_bounds:
  fixes s u :: nat
  shows "0 \<le> real s / real (max 1 (s + u)) * 100 \<and> real s / real (max 1 (s + u)) * 100 \<le> 100"
proof (rule scale_unit_interval)
  show "0 \<le> real s / real (max 1 (s + u))" by simp
  have "0 < real (max 1 (s + u))" and "real s \<le> real (max 1 (s + u))" by simp_all
  then show "real s / real (max 1 (s + u)) \<le> 1"
    by (simp only: divide_le_eq_1 simp_thms)
qed

text \<open>
  C5. On every filtered table the KPI pass returns (the division never raises, its
  divisor \<open>max 1 (sat + diss)\<close> being non-zero); the satisfied percentage is
  \<open>sat / max 1 (sat + diss) * 100\<close>, lies between \<open>0\<close> and \<open>100\<close>, and is \<open>0\<close> when the
  filtered table is empty.
\<close>

theorem sat_pct_in_range:
  "\<exists>k. compute_kpis (filtered d a c t y) y = Inr k
       \<and> sat_pct k = real (sat k) / real (max 1 (sat k + diss k)) * 100
       \<and> max 1 (sat k + diss k) \<noteq> 0
       \<and> 0 \<le> sat_pct k \<and> sat_pct k \<le> 100
       \<and> (filtered d a c t y = [] \<longrightarrow> sat_pct k = 0)"
proof -
  let ?d = "filtered d a c t y"
  obtain k where k: "compute_kpis ?d y = Inr k"
    by (simp add: compute_kpis_Inr)
  have pct: "sat_pct k = real (sat k) / real (max 1 (sat k + diss k)) * 100"
    using k by (auto simp: compute_kpis_Inr)
  have "?d = [] \<longrightarrow> sat k = 0"
    using k by (auto simp: compute_kpis_Inr)
  then have "?d = [] \<longrightarrow> sat_pct k = 0"
    using pct by simp
  moreover have "0 \<le> sat_pct k \<and> sat_pct k \<le> 100"
    unfolding pct by (rule pct_bounds)
  ultimately show ?thesis using k pct by auto
qed

theorem sat_pct_in_range_witness:
  "filtered [] [''X''] [] [] 2012 = []
   \<and> (\<exists>k. compute_kpis (filtered [] [''X''] [] [] 2012) 2012 = Inr k \<and> sat_pct k = 0)"
proof -
  have e: "filtered [] [''X''] [] [] 2012 = []"
    by (simp add: filtered_eq_filter)
  show ?thesis
    using e sat_pct_in_range [of "[]" "[''X'']" "[]" "[]" 2012] by auto
qed

subsection \<open>Frames of counts\<close>

lemma fst_unstack_counts: "fst (unstack_counts kv) = sort (remdups (map snd kv))"
  by (simp add: unstack_counts_def Let_def)

lemma keys_unstack_counts: "map fst (snd (unstack_counts kv)) = sort (remdups (map fst kv))"
  by (simp add: unstack_counts_def Let_def comp_def)

lemma cell_count_row:
  "cell (k, map (\<lambda>c. (c, count_list kv (k, c))) (sort (remdups (map snd kv)))) c
     = count_list kv (k, c)"
proof (cases "c \<in> snd ` set kv")
  case True
  then show ?thesis
    by (simp add: cell_def map_of_map_restrict restrict_map_def)
next
  case False
  then have "(k, c) \<notin> set kv" by force
  then have "count_list kv (k, c) = 0" by (rule count_notin)
  with False show ?thesis
    by (simp add: cell_def map_of_map_restrict restrict_map_def)
qed

lemma cell_count_row_fun:
  "cell (k, map (\<lambda>c. (c, count_list kv (k, c))) (sort (remdups (map snd kv))))
     = (\<lambda>c. count_list kv (k, c))"
  by (rule ext) (rule cell_count_row)

lemma cells_unstack_counts:
  "map (\<lambda>r. F (fst r) (cell r)) (snd (unstack_counts kv))
     = map (\<lambda>k. F k (\<lambda>c. count_list kv (k, c))) (sort (remdups (map fst kv)))"
  by (simp add: unstack_counts_def Let_def comp_def cell_count_row_fun)

lemma wf_unstack_counts:
  "r \<in> set (snd (unstack_counts kv)) \<Longrightarrow> map fst (snd r) = fst (unstack_counts kv)"
  by (auto simp: unstack_counts_def Let_def comp_def)

lemma cell_append_zero: "cell (k, cs @ [(n, 0)]) = cell (k, cs)"
  by (rule ext) (simp add: cell_def map_add_def split: option.splits)

lemma keys_default_column: "map fst (snd (default_column n f)) = map fst (snd f)"
  by (simp add: default_column_def comp_def case_prod_beta)

lemma cells_default_column:
  "map (\<lambda>r. F (fst r) (cell r)) (snd (default_column n f))
     = map (\<lambda>r. F (fst r) (cell r)) (snd f)"
  by (simp add: default_column_def comp_def case_prod_beta cell_append_zero)

lemma fst_default_column:
  "set (fst (default_column n f)) = insert n (set (fst f))"
  by (auto simp: default_column_def)

lemma wf_default_column:
  assumes "\<forall>r \<in> set (snd f). map fst (snd r) = fst f"
  shows "\<forall>r \<in> set (snd (default_column n f)). map fst (snd r) = fst (default_column n f)"
  using assms by (auto simp: default_column_def)

lemma cell_append_other: "c \<noteq> n \<Longrightarrow> cell (k, cs @ [(n, v)]) c = cell (k, cs) c"
  by (simp add: cell_def map_add_def split: option.splits)

lemma cell_append_new:
  assumes "n \<notin> set (map fst cs)"
  shows "cell (k, cs @ [(n, v)]) n = v"
proof -
  from assms have "map_of cs n = None"
    by (simp add: map_of_eq_None_iff)
  then show ?thesis
    by (simp add: cell_def map_add_def)
qed

lemma sum_indicator_distinct:
  assumes "distinct ks"
  shows "(\<Sum>k\<leftarrow>ks. if k = k0 then 1 else 0) = (if k0 \<in> set ks then 1 else (0::nat))"
  using assms by (induction ks) auto

lemma sum_count_keys:
  assumes "distinct ks" and "fst ` set kv \<subseteq> set ks"
  shows "(\<Sum>k\<leftarrow>ks. count_list kv (k, c)) = count_list (map snd kv) c"
  using assms(2)
proof (induction kv)
  case Nil
  then show ?case by simp
next
  case (Cons p kv)
  obtain k0 c0 where p: "p = (k0, c0)" by (cases p)
  from Cons.prems p have k0: "k0 \<in> set ks" and sub: "fst ` set kv \<subseteq> set ks" by auto
  have "(\<Sum>k\<leftarrow>ks. count_list (p # kv) (k, c))
        = (\<Sum>k\<leftarrow>ks. count_list kv (k, c) + (if k = k0 then (if c0 = c then 1 else 0) else 0))"
    unfolding p by (rule arg_cong [where f = sum_list]) auto
  also have "\<dots> = (\<Sum>k\<leftarrow>ks. count_list kv (k, c))
                  + (\<Sum>k\<leftarrow>ks. if k = k0 then (if c0 = c then 1 else 0) else 0)"
    by (simp add: sum_list_addf)
  also have "(\<Sum>k\<leftarrow>ks. if k = k0 then (if c0 = c then 1 else 0) else 0)
             = (if c0 = c then 1 else (0::nat))"
    using sum_indicator_distinct [OF assms(1), of k0] k0 by (cases "c0 = c") simp_all
  finally show ?case
    using Cons.IH [OF sub] p by simp
qed

lemma count_list_pairs:
  "count_list (map (\<lambda>x. (f x, g x)) xs) (k, c) = length (filter (\<lambda>x. f x = k \<and> g x = c) xs)"
  by (induction xs) auto

lemma top_airlines_rows:
  assumes nt: "''Total'' \<notin> satisfaction_norm ` set d"
  defines "kv \<equiv> map (\<lambda>r. (Airline r, satisfaction_norm r)) d"
  shows "\<exists>cols rows.
           top_airlines d = Inr (cols, sort_desc (\<lambda>r. cell r ''Total'') rows)
         \<and> ''satisfied'' \<in> set cols \<and> ''neutral or dissatisfied'' \<in> set cols
         \<and> ''Total'' \<in> set cols
         \<and> (\<forall>r \<in> set rows. map fst (snd r) = cols)
         \<and> map (\<lambda>r. (fst r, cell r ''satisfied'', cell r ''neutral or dissatisfied'',
                        cell r ''Total'')) rows
             = map (\<lambda>k. (k, count_list kv (k, ''satisfied''),
                             count_list kv (k, ''neutral or dissatisfied''),
                             count_list kv (k, ''satisfied'')
                               + count_list kv (k, ''neutral or dissatisfied'')))
                   (sort (remdups (map Airline d)))"
proof -
  define f0 where "f0 = unstack_counts kv"
  define f1 where "f1 = default_column ''satisfied'' f0"
  define f2 where "f2 = default_column ''neutral or dissatisfied'' f1"
  define rows where
    "rows = map (\<lambda>r. (fst r, snd r @ [(''Total'', cell r ''satisfied''
                                            + cell r ''neutral or dissatisfied'')])) (snd f2)"
  have cols2: "set (fst f2)
      = insert ''neutral or dissatisfied'' (insert ''satisfied'' (satisfaction_norm ` set d))"
    by (simp add: f2_def f1_def f0_def fst_default_column fst_unstack_counts kv_def image_comp comp_def)
  have wf0: "\<forall>r \<in> set (snd f0). map fst (snd r) = fst f0"
    unfolding f0_def by (simp add: wf_unstack_counts)
  have wf2: "\<forall>r \<in> set (snd f2). map fst (snd r) = fst f2"
    unfolding f2_def f1_def by (intro wf_default_column wf0)
  have no_total: "''Total'' \<notin> set (fst f2)"
    using nt by (simp add: cols2)
  have top: "top_airlines d = Inr (fst f2 @ [''Total''], sort_desc (\<lambda>r. cell r ''Total'') rows)"
    unfolding top_airlines_def Let_def kv_def [symmetric] f0_def [symmetric]
      f1_def [symmetric] f2_def [symmetric]
    by (simp add: assign_total_def cols2 sort_values_desc_def rows_def)
  have wf3: "\<forall>r \<in> set rows. map fst (snd r) = fst f2 @ [''Total'']"
    using wf2 by (auto simp: rows_def)
  have row3: "(fst r', cell r' ''satisfied'', cell r' ''neutral or dissatisfied'', cell r' ''Total'')
        = (fst r, cell r ''satisfied'', cell r ''neutral or dissatisfied'',
           cell r ''satisfied'' + cell r ''neutral or dissatisfied'')"
    if r: "r \<in> set (snd f2)"
      and r': "r' = (fst r, snd r @ [(''Total'', cell r ''satisfied''
                                        + cell r ''neutral or dissatisfied'')])"
    for r r'
  proof -
    have keys: "''Total'' \<notin> set (map fst (snd r))"
      using wf2 r no_total by simp
    have "cell r' ''Total'' = cell r ''satisfied'' + cell r ''neutral or dissatisfied''"
      unfolding r' using keys by (rule cell_append_new)
    moreover have "cell r' ''satisfied'' = cell (fst r, snd r) ''satisfied''"
      unfolding r' by (rule cell_append_other) simp
    moreover have "cell r' ''neutral or dissatisfied'' = cell (fst r, snd r) ''neutral or dissatisfied''"
      unfolding r' by (rule cell_append_other) simp
    ultimately show ?thesis by (simp add: r')
  qed
  have "map (\<lambda>r. (fst r, cell r ''satisfied'', cell r ''neutral or dissatisfied'',
                   cell r ''Total'')) rows
        = map (\<lambda>r. (fst r, cell r ''satisfied'', cell r ''neutral or dissatisfied'',
                   cell r ''satisfied'' + cell r ''neutral or dissatisfied'')) (snd f2)"
    unfolding rows_def map_map comp_def
    by (rule map_cong [OF refl]) (rule row3, assumption, rule refl)
  also have "\<dots> = map (\<lambda>r. (fst r, cell r ''satisfied'', cell r ''neutral or dissatisfied'',
                   cell r ''satisfied'' + cell r ''neutral or dissatisfied'')) (snd f0)"
    unfolding f2_def f1_def
    by (simp only: cells_default_column
        [where F = "\<lambda>k h. (k, h ''satisfied'', h ''neutral or dissatisfied'',
                         h ''satisfied'' + h ''neutral or dissatisfied'')"])
  also have "\<dots> = map (\<lambda>k. (k, count_list kv (k, ''satisfied''),
                             count_list kv (k, ''neutral or dissatisfied''),
                             count_list kv (k, ''satisfied'')
                               + count_list kv (k, ''neutral or dissatisfied'')))
                   (sort (remdups (map fst kv)))"
    unfolding f0_def
    by (simp only: cells_unstack_counts
        [where F = "\<lambda>k h. (k, h ''satisfied'', h ''neutral or dissatisfied'',
                         h ''satisfied'' + h ''neutral or dissatisfied'')"])
  finally have cells: "map (\<lambda>r. (fst r, cell r ''satisfied'', cell r ''neutral or dissatisfied'',
                   cell r ''Total'')) rows
      = map (\<lambda>k. (k, count_list kv (k, ''satisfied''),
                             count_list kv (k, ''neutral or dissatisfied''),
                             count_list kv (k, ''satisfied'')
                               + count_list kv (k, ''neutral or dissatisfied'')))
                   (sort (remdups (map Airline d)))"
    by (simp add: kv_def comp_def)
  have "''satisfied'' \<in> set (fst f2 @ [''Total''])"
    and "''neutral or dissatisfied'' \<in> set (fst f2 @ [''Total''])"
    and "''Total'' \<in> set (fst f2 @ [''Total''])"
    by (simp_all add: cols2)
  with top wf3 cells show ?thesis by blast
qed

subsection \<open>Loading, the cursor and the callback as a whole\<close>

lemma Year_enrich: "Year (enrich r) = Year r"
  by (simp add: enrich_def csv_row.defs row.defs)

lemma Airline_enrich: "Airline (enrich r) = Airline r"
  by (simp add: enrich_def csv_row.defs row.defs)

lemma satisfaction_enrich: "satisfaction (enrich r) = satisfaction r"
  by (simp add: enrich_def csv_row.defs row.defs)

lemma satisfaction_norm_enrich:
  "satisfaction_norm (enrich r) = normalize_satisfaction (satisfaction r)"
  by (simp add: enrich_def csv_row.defs row.defs)

lemma normalize_satisfaction_cases:
  "normalize_satisfaction v = ''unknown'' \<and> v = None
   \<or> normalize_satisfaction v = ''satisfied'' \<and> v \<noteq> None
   \<or> normalize_satisfaction v = ''neutral or dissatisfied'' \<and> v \<noteq> None"
  by (cases v) (simp_all add: normalize_satisfaction_def Let_def)

lemma series_min_Inr:
  assumes "series_min xs = Inr lo"
  shows "xs \<noteq> [] \<and> lo = Min (set xs)"
proof (cases xs)
  case Nil
  with assms show ?thesis by (simp add: series_min_def)
next
  case (Cons x ys)
  with assms show ?thesis
    using Min.set_eq_fold [of x ys] by (auto simp: series_min_def)
qed

lemma series_max_Inr:
  assumes "series_max xs = Inr hi"
  shows "xs \<noteq> [] \<and> hi = Max (set xs)"
proof (cases xs)
  case Nil
  with assms show ?thesis by (simp add: series_max_def)
next
  case (Cons x ys)
  with assms show ?thesis
    using Max.set_eq_fold [of x ys] by (auto simp: series_max_def)
qed

lemma load_enrich_Inr:
  assumes "load_enrich csv = Inr g"
  shows "csv \<noteq> []" and "df g = map enrich csv"
    and "year_min g = Min (Year ` set (df g))" and "year_max g = Max (Year ` set (df g))"
    and "year_min g \<le> year_max g"
proof -
  from assms obtain lo hi where lo: "series_min (map Year (map enrich csv)) = Inr lo"
    and hi: "series_max (map Year (map enrich csv)) = Inr hi"
    and g: "g = \<lparr>df = map enrich csv, year_min = lo, year_max = hi\<rparr>"
    by (auto simp: load_enrich_def Let_def split: sum.splits)
  from series_min_Inr [OF lo] series_max_Inr [OF hi] g
  show "csv \<noteq> []" and "df g = map enrich csv"
    and mn: "year_min g = Min (Year ` set (df g))" and mx: "year_max g = Max (Year ` set (df g))"
    by (simp_all add: image_image)
  have "df g \<noteq> []" using \<open>csv \<noteq> []\<close> \<open>df g = map enrich csv\<close> by simp
  then show "year_min g \<le> year_max g"
    unfolding mn mx by (intro Min_le_iff [THEN iffD2] bexI [of _ "Max (Year ` set (df g))"]) (auto intro: Max_in)
qed

lemma cursor_playing:
  assumes "year_min g \<le> year_max g"
  shows "cursor g n sy True
     = Inr (year_min g + n mod (year_max g - year_min g + 1),
            year_min g + n mod (year_max g - year_min g + 1))"
  using assms by (simp add: cursor_def py_mod_def Let_def)

lemma cursor_paused: "cursor g n sy False = Inr (sy, sy)"
  by (simp add: cursor_def)

lemma top_airlines_total: "\<exists>grp. top_airlines d = Inr grp"
  by (simp add: top_airlines_def Let_def assign_total_def fst_default_column)

lemma render_Inr:
  assumes "cursor g n sy p = Inr (cy, sv)"
  shows "\<exists>v. render g n sy a c t p = Inr v
     \<and> slider_val v = sv \<and> current_year_label v = cy \<and> kpi_year (kpi_row v) = cy
     \<and> compute_kpis (filtered (df g) a c t cy) cy = Inr (kpi_row v)
     \<and> top_airlines (filtered (df g) a c t cy) = Inr (top_fig v)
     \<and> facet_fig v = year_slice (filtered (df g) a c t cy) cy
     \<and> trend_satisfied v = trace (year_trend (filtered (df g) a c t cy) cy) ''satisfied''
     \<and> trend_dissatisfied v
         = trace (year_trend (filtered (df g) a c t cy) cy) ''neutral or dissatisfied''
     \<and> pie_counts v
         = value_counts (map satisfaction_norm (year_slice (filtered (df g) a c t cy) cy))
     \<and> interval_disabled v = (\<not> p)"
proof -
  obtain grp where grp: "top_airlines (filtered (df g) a c t cy) = Inr grp"
    using top_airlines_total by blast
  show ?thesis
    using assms grp by (simp add: render_def Let_def compute_kpis_Inr)
qed

lemma mod_span_bounds:
  fixes lo hi n :: int
  assumes "lo \<le> hi"
  shows "lo \<le> lo + n mod (hi - lo + 1) \<and> lo + n mod (hi - lo + 1) \<le> hi"
proof -
  have span: "0 < hi - lo + 1" using assms by simp
  have "0 \<le> n mod (hi - lo + 1)" using span by (rule pos_mod_sign)
  moreover have "n mod (hi - lo + 1) < hi - lo + 1" using span by (rule pos_mod_bound)
  ultimately show ?thesis by linarith
qed

lemma slider_after_update:
  assumes lohi: "year_min g \<le> year_max g"
    and inv: "year_min g \<le> year_slider p \<and> year_slider p \<le> year_max g"
  shows "year_min g \<le> year_slider (update g p) \<and> year_slider (update g p) \<le> year_max g"
proof (cases "play_state p")
  case True
  let ?cy = "year_min g + n_intervals p mod (year_max g - year_min g + 1)"
  have cur: "cursor g (n_intervals p) (year_slider p) True = Inr (?cy, ?cy)"
    using lohi by (rule cursor_playing)
  obtain v where v: "render_page g p = Inr v" and sv: "slider_val v = ?cy"
    using render_Inr [OF cur, of "airline_dd p" "class_dd p" "travel_dd p"] True
    by (auto simp: render_page_def)
  have "year_min g \<le> ?cy \<and> ?cy \<le> year_max g"
    using lohi by (rule mod_span_bounds)
  then show ?thesis using v sv by (simp add: update_def)
next
  case False
  have cur: "cursor g (n_intervals p) (year_slider p) False = Inr (year_slider p, year_slider p)"
    by (rule cursor_paused)
  obtain v where v: "render_page g p = Inr v" and sv: "slider_val v = year_slider p"
    using render_Inr [OF cur, of "airline_dd p" "class_dd p" "travel_dd p"] False
    by (auto simp: render_page_def)
  then show ?thesis using inv by (simp add: update_def)
qed

lemma slider_after_input:
  assumes "possible g ev"
    and "year_min g \<le> year_slider p \<and> year_slider p \<le> year_max g"
  shows "year_min g \<le> year_slider (input ev p) \<and> year_slider (input ev p) \<le> year_max g"
  using assms by (cases ev) simp_all

lemma reachable_slider:
  assumes lohi: "year_min g \<le> year_max g" and "reachable g p"
  shows "year_min g \<le> year_slider p \<and> year_slider p \<le> year_max g"
  using assms(2)
proof (induction rule: reachable.induct)
  case start
  show ?case using lohi by (simp add: layout_def)
next
  case (step p ev)
  have "year_min g \<le> year_slider (update g p) \<and> year_slider (update g p) \<le> year_max g"
    using lohi step.IH by (rule slider_after_update)
  with step.hyps(2) show ?case by (rule slider_after_input)
qed

lemma play_state_update: "play_state (update g p) = play_state p"
  by (simp add: update_def split: sum.splits)

lemma set_filtered_subset: "set (filtered d a c t y) \<subseteq> set d"
  by (simp add: filtered_eq_filter)

lemma labels_loaded:
  assumes "load_enrich csv = Inr g" and "x \<in> set (df g)"
  shows "satisfaction_norm x = ''unknown'' \<and> satisfaction x = None
       \<or> satisfaction_norm x = ''satisfied'' \<and> satisfaction x \<noteq> None
       \<or> satisfaction_norm x = ''neutral or dissatisfied'' \<and> satisfaction x \<noteq> None"
proof -
  from assms obtain r where "x = enrich r"
    by (auto simp: load_enrich_Inr(2) [OF assms(1)])
  then show ?thesis
    using normalize_satisfaction_cases [of "satisfaction r"]
    by (simp add: satisfaction_norm_enrich satisfaction_enrich)
qed

lemma map_of_cell:
  assumes "c \<in> set (map fst (snd r))"
  shows "map_of (snd r) c = Some (cell r c)"
proof -
  from assms have "map_of (snd r) c \<noteq> None"
    by (simp add: map_of_eq_None_iff)
  then show ?thesis by (auto simp: cell_def)
qed

lemma count_two_labels:
  assumes "a \<noteq> b"
  shows "count_list (map f xs) a + count_list (map f xs) b
           = length (filter (\<lambda>x. f x = a \<or> f x = b) xs)"
  using assms by (induction xs) auto

lemma norm_examples:
  "normalize_satisfaction (Some ''satisfied'') = ''satisfied''"
  "normalize_satisfaction (Some ''neutral'') = ''neutral or dissatisfied''"
  "normalize_satisfaction (Some ''dissatisfied'') = ''neutral or dissatisfied''"
  by code_simp+

subsection \<open>The per-airline breakdown\<close>

text \<open>
  What the per-airline pass computes on a loaded data set: one row per airline of the
  filtered table, ordered by the \<open>Total\<close> cell, largest first; in each row the
  \<open>satisfied\<close> and \<open>neutral or dissatisfied\<close> cells hold the number of filtered rows
  of that airline with that label (\<open>0\<close> when there is none) and \<open>Total\<close> their sum.
  Summed over the airlines, the two cells give the KPI counts \<open>sat + diss\<close>, the number
  of filtered rows whose satisfaction cell is not null.
\<close>

lemma airline_breakdown_counts:
  assumes "load_enrich csv = Inr g" and "d = filtered (df g) a c t y"
  shows "\<exists>grp k. top_airlines d = Inr grp \<and> compute_kpis d y = Inr k
     \<and> total_records k = length d
     \<and> sorted (rev (map (\<lambda>r. cell r ''Total'') (snd grp)))
     \<and> set (map fst (snd grp)) = Airline ` set d
     \<and> (\<forall>r \<in> set (snd grp).
           map_of (snd r) ''satisfied''
             = Some (length (filter (\<lambda>x. Airline x = fst r
                                         \<and> satisfaction_norm x = ''satisfied'') d))
         \<and> map_of (snd r) ''neutral or dissatisfied''
             = Some (length (filter (\<lambda>x. Airline x = fst r
                                         \<and> satisfaction_norm x = ''neutral or dissatisfied'') d))
         \<and> map_of (snd r) ''Total''
             = Some (cell r ''satisfied'' + cell r ''neutral or dissatisfied''))
     \<and> sum_list (map (\<lambda>r. cell r ''satisfied'' + cell r ''neutral or dissatisfied'') (snd grp))
         = sat k + diss k
     \<and> sat k + diss k = length (filter (\<lambda>x. satisfaction x \<noteq> None) d)
     \<and> ((\<forall>x \<in> set d. satisfaction x \<noteq> None) \<longrightarrow>
          sum_list (map (\<lambda>r. cell r ''satisfied'' + cell r ''neutral or dissatisfied'') (snd grp))
            = length d)"
proof -
  define kv where "kv = map (\<lambda>r. (Airline r, satisfaction_norm r)) d"
  define keys where "keys = sort (remdups (map Airline d))"
  define T where "T = (\<lambda>r :: string \<times> (string \<times> nat) list.
    (fst r, cell r ''satisfied'', cell r ''neutral or dissatisfied'', cell r ''Total''))"
  define T' where "T' = (\<lambda>k. (k, count_list kv (k, ''satisfied''),
        count_list kv (k, ''neutral or dissatisfied''),
        count_list kv (k, ''satisfied'') + count_list kv (k, ''neutral or dissatisfied'')))"
  have lab: "satisfaction_norm x = ''unknown'' \<and> satisfaction x = None
       \<or> satisfaction_norm x = ''satisfied'' \<and> satisfaction x \<noteq> None
       \<or> satisfaction_norm x = ''neutral or dissatisfied'' \<and> satisfaction x \<noteq> None"
    if "x \<in> set d" for x
    using labels_loaded [OF assms(1), of x] that set_filtered_subset [of "df g" a c t y]
    by (auto simp: assms(2))
  have nt: "''Total'' \<notin> satisfaction_norm ` set d"
    using lab by fastforce
  obtain cols rows where
    top: "top_airlines d = Inr (cols, sort_desc (\<lambda>r. cell r ''Total'') rows)"
    and cols: "''satisfied'' \<in> set cols" "''neutral or dissatisfied'' \<in> set cols"
    and total_col: "''Total'' \<in> set cols"
    and wf: "\<forall>r \<in> set rows. map fst (snd r) = cols"
    and cells: "map T rows = map T' keys"
    using top_airlines_rows [OF nt] unfolding kv_def T_def T'_def keys_def by blast
  obtain k where k: "compute_kpis d y = Inr k" and tot: "total_records k = length d"
    and sk: "sat k = count_list (map satisfaction_norm d) ''satisfied''"
    and dk: "diss k = count_list (map satisfaction_norm d) ''neutral or dissatisfied''"
    by (simp add: compute_kpis_Inr)
  let ?grp = "(cols, sort_desc (\<lambda>r. cell r ''Total'') rows)"
  have srt: "sorted (rev (map (\<lambda>r. cell r ''Total'') (snd ?grp)))"
    by (simp add: descending_sort_desc)
  have "map fst (map T rows) = map fst (map T' keys)"
    by (simp only: cells)
  then have keys_eq: "map fst rows = keys"
    by (simp add: T_def T'_def comp_def)
  have keyset: "set (map fst (snd ?grp)) = Airline ` set d"
  proof -
    have "set (map fst (sort_desc (\<lambda>r. cell r ''Total'') rows)) = set (map fst rows)"
      by (simp add: set_sort_desc)
    then show ?thesis by (simp add: keys_eq keys_def)
  qed
  have per_row: "map_of (snd r) ''satisfied''
             = Some (length (filter (\<lambda>x. Airline x = fst r
                                         \<and> satisfaction_norm x = ''satisfied'') d))
         \<and> map_of (snd r) ''neutral or dissatisfied''
             = Some (length (filter (\<lambda>x. Airline x = fst r
                                         \<and> satisfaction_norm x = ''neutral or dissatisfied'') d))
         \<and> map_of (snd r) ''Total''
             = Some (cell r ''satisfied'' + cell r ''neutral or dissatisfied'')"
    if "r \<in> set (snd ?grp)" for r
  proof -
    from that have r: "r \<in> set rows" by (simp add: set_sort_desc)
    then have "T r \<in> set (map T rows)" by simp
    then have "T r \<in> set (map T' keys)" by (simp only: cells)
    then obtain k where "T r = T' k" by auto
    then have c: "cell r ''satisfied'' = count_list kv (fst r, ''satisfied'')"
      "cell r ''neutral or dissatisfied'' = count_list kv (fst r, ''neutral or dissatisfied'')"
      "cell r ''Total'' = cell r ''satisfied'' + cell r ''neutral or dissatisfied''"
      by (simp_all add: T_def T'_def)
    have m: "map_of (snd r) col = Some (cell r col)" if "col \<in> set cols" for col
      using wf r that by (intro map_of_cell) simp
    show ?thesis
      using m [OF cols(1)] m [OF cols(2)] m [OF total_col] c
      by (simp add: kv_def count_list_pairs)
  qed
  have "sum_list (map (\<lambda>r. cell r ''satisfied'' + cell r ''neutral or dissatisfied'') (snd ?grp))
      = sum_list (map (\<lambda>r. cell r ''satisfied'' + cell r ''neutral or dissatisfied'') rows)"
    by (simp add: sum_list_sort_desc)
  also have "\<dots> = sum_list (map (\<lambda>(k, s, u, t). s + u) (map T rows))"
    by (simp add: T_def comp_def)
  also have "\<dots> = sum_list (map (\<lambda>(k, s, u, t). s + u) (map T' keys))"
    by (simp only: cells)
  also have "\<dots> = (\<Sum>k\<leftarrow>keys. count_list kv (k, ''satisfied''))
                  + (\<Sum>k\<leftarrow>keys. count_list kv (k, ''neutral or dissatisfied''))"
    by (simp add: T'_def comp_def sum_list_addf)
  also have "\<dots> = count_list (map snd kv) ''satisfied''
                  + count_list (map snd kv) ''neutral or dissatisfied''"
  proof -
    have dk: "distinct keys" by (simp add: keys_def)
    have sub: "fst ` set kv \<subseteq> set keys" by (auto simp: kv_def keys_def)
    show ?thesis by (simp only: sum_count_keys [OF dk sub])
  qed
  also have "\<dots> = sat k + diss k"
    by (simp add: sk dk kv_def comp_def)
  finally have sum: "sum_list (map (\<lambda>r. cell r ''satisfied'' + cell r ''neutral or dissatisfied'')
      (snd ?grp)) = sat k + diss k" .
  have "sat k + diss k = length (filter (\<lambda>x. satisfaction_norm x = ''satisfied''
        \<or> satisfaction_norm x = ''neutral or dissatisfied'') d)"
    unfolding sk dk by (rule count_two_labels) simp
  also have "filter (\<lambda>x. satisfaction_norm x = ''satisfied''
        \<or> satisfaction_norm x = ''neutral or dissatisfied'') d
      = filter (\<lambda>x. satisfaction x \<noteq> None) d"
    by (rule filter_cong [OF refl]) (use lab in fastforce)
  finally have nonnull: "sat k + diss k = length (filter (\<lambda>x. satisfaction x \<noteq> None) d)" .
  have all: "sum_list (map (\<lambda>r. cell r ''satisfied'' + cell r ''neutral or dissatisfied'')
      (snd ?grp)) = length d" if "\<forall>x \<in> set d. satisfaction x \<noteq> None"
  proof -
    from that have "filter (\<lambda>x. satisfaction x \<noteq> None) d = d" by simp
    with sum nonnull show ?thesis by simp
  qed
  show ?thesis
    using top k tot srt keyset per_row sum nonnull all by blast
qed

text \<open>
  C2. The per-airline counts are to sum to the number of filtered rows, airlines ordered
  by their total count. A row whose satisfaction cell is null carries the label
  \<open>unknown\<close>: it is a filtered row, and it is in neither of the two columns that are
  summed and ordered by. With the single null-label row of airline X the filtered table
  has one row and the frame sums to \<open>0\<close>. With one satisfied row of airline A and three
  null-label rows of airline E, the frame puts A (\<open>Total = 1\<close>) before E
  (\<open>Total = 0\<close>), though E has three of the four filtered rows.
\<close>

theorem airline_breakdown_null_rows:
  "length (filtered
        [enrich \<lparr>satisfaction = None, Airline = ''X'', Year = 2010, Class = None,
                  Type_of_Travel = None, Departure_Delay = None, Arrival_Delay = None\<rparr>]
        [''X''] [] [] 2010) = 1
   \<and> top_airlines (filtered
        [enrich \<lparr>satisfaction = None, Airline = ''X'', Year = 2010, Class = None,
                  Type_of_Travel = None, Departure_Delay = None, Arrival_Delay = None\<rparr>]
        [''X''] [] [] 2010)
       = Inr ([''unknown'', ''satisfied'', ''neutral or dissatisfied'', ''Total''],
              [(''X'', [(''unknown'', 1), (''satisfied'', 0),
                        (''neutral or dissatisfied'', 0), (''Total'', 0)])])
   \<and> length (filtered
        [enrich \<lparr>satisfaction = None, Airline = ''E'', Year = 2010, Class = None,
                  Type_of_Travel = None, Departure_Delay = None, Arrival_Delay = None\<rparr>,
         enrich \<lparr>satisfaction = Some ''satisfied'', Airline = ''A'', Year = 2010, Class = None,
                  Type_of_Travel = None, Departure_Delay = None, Arrival_Delay = None\<rparr>,
         enrich \<lparr>satisfaction = None, Airline = ''E'', Year = 2010, Class = None,
                  Type_of_Travel = None, Departure_Delay = None, Arrival_Delay = None\<rparr>,
         enrich \<lparr>satisfaction = None, Airline = ''E'', Year = 2010, Class = None,
                  Type_of_Travel = None, Departure_Delay = None, Arrival_Delay = None\<rparr>]
        [''A'', ''E''] [] [] 2010) = 4
   \<and> top_airlines (filtered
        [enrich \<lparr>satisfaction = None, Airline = ''E'', Year = 2010, Class = None,
                  Type_of_Travel = None, Departure_Delay = None, Arrival_Delay = None\<rparr>,
         enrich \<lparr>satisfaction = Some ''satisfied'', Airline = ''A'', Year = 2010, Class = None,
                  Type_of_Travel = None, Departure_Delay = None, Arrival_Delay = None\<rparr>,
         enrich \<lparr>satisfaction = None, Airline = ''E'', Year = 2010, Class = None,
                  Type_of_Travel = None, Departure_Delay = None, Arrival_Delay = None\<rparr>,
         enrich \<lparr>satisfaction = None, Airline = ''E'', Year = 2010, Class = None,
                  Type_of_Travel = None, Departure_Delay = None, Arrival_Delay = None\<rparr>]
        [''A'', ''E''] [] [] 2010)
       = Inr ([''satisfied'', ''unknown'', ''neutral or dissatisfied'', ''Total''],
              [(''A'', [(''satisfied'', 1), (''unknown'', 0),
                        (''neutral or dissatisfied'', 0), (''Total'', 1)]),
               (''E'', [(''satisfied'', 0), (''unknown'', 3),
                        (''neutral or dissatisfied'', 0), (''Total'', 0)])])"
  by (simp add: Year_enrich Airline_enrich satisfaction_norm_enrich norm_examples
      normalize_satisfaction_def [of None] filtered_eq_filter
      top_airlines_def unstack_counts_def default_column_def
      assign_total_def sort_values_desc_def sort_desc_def cell_def)

subsection \<open>Playback\<close>

text \<open>
  C6. For a loaded data set, while playing, the callback returns and the displayed year
  (the current year, which is also written to the slider) is \<open>year_min\<close> plus the tick
  count modulo the span \<open>year_max - year_min + 1\<close>, where \<open>year_min\<close> and
  \<open>year_max\<close> are the smallest and largest year of the data; the output repeats with
  period span; and with the range 2006 to 2025 the displayed year at tick 20 is 2006.
\<close>

theorem playback_year:
  assumes "load_enrich csv = Inr g"
  shows "(\<exists>v. render g n sy a c t True = Inr v
            \<and> current_year_label v = year_min g + n mod (year_max g - year_min g + 1)
            \<and> slider_val v = current_year_label v
            \<and> kpi_year (kpi_row v) = current_year_label v)
       \<and> year_min g = Min (Year ` set (df g))
       \<and> year_max g = Max (Year ` set (df g))
       \<and> render g (n + (year_max g - year_min g + 1)) sy a c t True = render g n sy a c t True
       \<and> (year_min g = 2006 \<and> year_max g = 2025 \<longrightarrow>
            (\<exists>v. render g 20 sy a c t True = Inr v \<and> current_year_label v = 2006))"
proof -
  note ld = load_enrich_Inr [OF assms]
  have cur: "cursor g m sy True
     = Inr (year_min g + m mod (year_max g - year_min g + 1),
            year_min g + m mod (year_max g - year_min g + 1))" for m
    using ld(5) by (rule cursor_playing)
  have r: "\<exists>v. render g m sy a c t True = Inr v
            \<and> current_year_label v = year_min g + m mod (year_max g - year_min g + 1)
            \<and> slider_val v = current_year_label v
            \<and> kpi_year (kpi_row v) = current_year_label v" for m
    using render_Inr [OF cur, of m a c t] by auto
  have per: "render g (n + (year_max g - year_min g + 1)) sy a c t True = render g n sy a c t True"
    by (simp add: render_def cursor_def py_mod_def Let_def)
  have "\<exists>v. render g 20 sy a c t True = Inr v \<and> current_year_label v = 2006"
    if "year_min g = 2006 \<and> year_max g = 2025"
    using r [of 20] that by auto
  with r [of n] ld(3,4) per show ?thesis by blast
qed

theorem playback_year_witness:
  "\<exists>g v. load_enrich
        [\<lparr>satisfaction = Some ''satisfied'', Airline = ''X'', Year = 2006, Class = None,
          Type_of_Travel = None, Departure_Delay = None, Arrival_Delay = None\<rparr>,
         \<lparr>satisfaction = Some ''neutral'', Airline = ''Y'', Year = 2025, Class = None,
          Type_of_Travel = None, Departure_Delay = None, Arrival_Delay = None\<rparr>] = Inr g
     \<and> year_min g = 2006 \<and> year_max g = 2025
     \<and> render g 20 2010 [''X''] [] [] True = Inr v \<and> current_year_label v = 2006"
proof -
  define g where "g = \<lparr>df = map enrich
        [\<lparr>satisfaction = Some ''satisfied'', Airline = ''X'', Year = 2006, Class = None,
          Type_of_Travel = None, Departure_Delay = None, Arrival_Delay = None\<rparr>,
         \<lparr>satisfaction = Some ''neutral'', Airline = ''Y'', Year = 2025, Class = None,
          Type_of_Travel = None, Departure_Delay = None, Arrival_Delay = None\<rparr>],
       year_min = 2006, year_max = 2025\<rparr>"
  have ld: "load_enrich
        [\<lparr>satisfaction = Some ''satisfied'', Airline = ''X'', Year = 2006, Class = None,
          Type_of_Travel = None, Departure_Delay = None, Arrival_Delay = None\<rparr>,
         \<lparr>satisfaction = Some ''neutral'', Airline = ''Y'', Year = 2025, Class = None,
          Type_of_Travel = None, Departure_Delay = None, Arrival_Delay = None\<rparr>] = Inr g"
    by (simp add: load_enrich_def series_min_def series_max_def Let_def Year_enrich g_def)
  have b: "year_min g = 2006 \<and> year_max g = 2025" by (simp add: g_def)
  from playback_year [OF ld, of 20 2010 "[''X'']" "[]" "[]"] b
  obtain v where "render g 20 2010 [''X''] [] [] True = Inr v" and "current_year_label v = 2006"
    by blast
  with ld b show ?thesis by blast
qed

text \<open>
  C8. At every page on which the callback fires (the layout, and any page reached from
  it by ticks, clicks on Play/Pause, dropdown changes and slider moves within the
  slider's declared range, each followed by the write-back of the callback), the
  callback returns, and the current year it uses lies between the smallest and the
  largest year of the data set.
\<close>

theorem cursor_year_in_range:
  assumes "load_enrich csv = Inr g" and "reachable g p"
  shows "\<exists>v. render_page g p = Inr v
           \<and> current_year_label v
               = (if play_state p
                  then year_min g + n_intervals p mod (year_max g - year_min g + 1)
                  else year_slider p)
           \<and> kpi_year (kpi_row v) = current_year_label v
           \<and> slider_val v = current_year_label v
           \<and> Min (Year ` set (df g)) \<le> current_year_label v
           \<and> current_year_label v \<le> Max (Year ` set (df g))"
proof -
  note ld = load_enrich_Inr [OF assms(1)]
  have inv: "year_min g \<le> year_slider p \<and> year_slider p \<le> year_max g"
    using ld(5) assms(2) by (rule reachable_slider)
  define cy where "cy = (if play_state p
      then year_min g + n_intervals p mod (year_max g - year_min g + 1) else year_slider p)"
  have cur: "cursor g (n_intervals p) (year_slider p) (play_state p) = Inr (cy, cy)"
    using ld(5) by (simp add: cy_def cursor_paused cursor_playing)
  have "year_min g \<le> cy \<and> cy \<le> year_max g"
    using inv mod_span_bounds [OF ld(5), of "n_intervals p"] by (simp add: cy_def)
  then have rng: "Min (Year ` set (df g)) \<le> cy \<and> cy \<le> Max (Year ` set (df g))"
    by (simp only: ld(3) ld(4))
  obtain v where "render_page g p = Inr v" and "slider_val v = cy"
    and "current_year_label v = cy" and "kpi_year (kpi_row v) = cy"
    using render_Inr [OF cur, of "airline_dd p" "class_dd p" "travel_dd p"]
    by (auto simp: render_page_def)
  with rng show ?thesis unfolding cy_def [symmetric] by auto
qed

theorem cursor_year_in_range_witness:
  "\<exists>g p v. load_enrich
        [\<lparr>satisfaction = Some ''satisfied'', Airline = ''X'', Year = 2010, Class = None,
          Type_of_Travel = None, Departure_Delay = None, Arrival_Delay = None\<rparr>,
         \<lparr>satisfaction = Some ''neutral'', Airline = ''Y'', Year = 2015, Class = None,
          Type_of_Travel = None, Departure_Delay = None, Arrival_Delay = None\<rparr>] = Inr g
     \<and> reachable g p \<and> p = input (Slide 2012) (update g (input Click (update g (layout g))))
     \<and> render_page g p = Inr v \<and> current_year_label v = 2012
     \<and> Min (Year ` set (df g)) \<le> 2012 \<and> 2012 \<le> Max (Year ` set (df g))"
proof -
  define g where "g = \<lparr>df = map enrich
        [\<lparr>satisfaction = Some ''satisfied'', Airline = ''X'', Year = 2010, Class = None,
          Type_of_Travel = None, Departure_Delay = None, Arrival_Delay = None\<rparr>,
         \<lparr>satisfaction = Some ''neutral'', Airline = ''Y'', Year = 2015, Class = None,
          Type_of_Travel = None, Departure_Delay = None, Arrival_Delay = None\<rparr>],
       year_min = 2010, year_max = 2015\<rparr>"
  define p where "p = input (Slide 2012) (update g (input Click (update g (layout g))))"
  have ld: "load_enrich
        [\<lparr>satisfaction = Some ''satisfied'', Airline = ''X'', Year = 2010, Class = None,
          Type_of_Travel = None, Departure_Delay = None, Arrival_Delay = None\<rparr>,
         \<lparr>satisfaction = Some ''neutral'', Airline = ''Y'', Year = 2015, Class = None,
          Type_of_Travel = None, Departure_Delay = None, Arrival_Delay = None\<rparr>] = Inr g"
    by (simp add: load_enrich_def series_min_def series_max_def Let_def Year_enrich g_def)
  have r1: "reachable g (input Click (update g (layout g)))"
    by (rule reachable.step [OF reachable.start]) simp
  have r2: "reachable g p"
    unfolding p_def by (rule reachable.step [OF r1]) (simp add: g_def)
  have paused: "\<not> play_state p"
    by (simp add: p_def play_state_update toggle_play_def layout_def)
  have sl: "year_slider p = 2012"
    by (simp add: p_def)
  from cursor_year_in_range [OF ld r2] paused sl
  obtain v where "render_page g p = Inr v" and "current_year_label v = 2012"
    and "Min (Year ` set (df g)) \<le> current_year_label v"
    and "current_year_label v \<le> Max (Year ` set (df g))"
    by auto
  with ld r2 p_def show ?thesis by auto
qed

text \<open>
  C10. While playing, the callback's whole result is the same for any two slider
  inputs.
\<close>

theorem render_ignores_slider_while_playing:
  "render g n slider_year1 a c t True = render g n slider_year2 a c t True"
  by (simp add: render_def cursor_def)

subsection \<open>The yearly trend\<close>

text \<open>
  C9. When the filtered table is empty, the per-year frame is the single placeholder row
  for the current year with \<open>0\<close> in both columns, and each of the two traces is the
  single point (current year, \<open>0\<close>).
\<close>

theorem trend_placeholder:
  assumes "filtered d a c t y = []"
  shows "year_trend (filtered d a c t y) y
           = ([''satisfied'', ''neutral or dissatisfied''],
              [(y, [(''satisfied'', 0), (''neutral or dissatisfied'', 0)])])
       \<and> trace (year_trend (filtered d a c t y) y) ''satisfied'' = Some ([y], [0])
       \<and> trace (year_trend (filtered d a c t y) y) ''neutral or dissatisfied'' = Some ([y], [0])"
  using assms by (simp add: year_trend_def unstack_counts_def trace_def cell_def)

theorem trend_placeholder_witness:
  "filtered [enrich \<lparr>satisfaction = Some ''satisfied'', Airline = ''X'', Year = 2010,
               Class = None, Type_of_Travel = None, Departure_Delay = None,
               Arrival_Delay = None\<rparr>] [''Y''] [] [] 2012 = []
   \<and> trace (year_trend
         (filtered [enrich \<lparr>satisfaction = Some ''satisfied'', Airline = ''X'', Year = 2010,
               Class = None, Type_of_Travel = None, Departure_Delay = None,
               Arrival_Delay = None\<rparr>] [''Y''] [] [] 2012) 2012) ''satisfied''
       = Some ([2012], [0])"
proof -
  have e: "filtered [enrich \<lparr>satisfaction = Some ''satisfied'', Airline = ''X'', Year = 2010,
               Class = None, Type_of_Travel = None, Departure_Delay = None,
               Arrival_Delay = None\<rparr>] [''Y''] [] [] 2012 = []"
    by (simp add: filtered_eq_filter Airline_enrich)
  show ?thesis
    by (rule conjI [OF e]) (rule trend_placeholder [OF e, THEN conjunct2, THEN conjunct1])
qed

subsection \<open>The worked example\<close>

text \<open>
  C4. For the three records (X, Business, 2010, satisfied), (X, Business, 2012, neutral)
  and (Y, Eco, 2015, dissatisfied), whatever their travel types and delays, with airline
  selection X, no class and no travel-type selection, paused at slider year 2012: the
  filtered table is the first two records; total 2, satisfied 1, dissatisfied 1,
  percentage 50; the airline frame has the single row X with satisfied 1 and
  dissatisfied 1; the trend is 2010: (1, 0) and 2012: (0, 1); the slice of year 2012 has
  no satisfied and one dissatisfied record.
\<close>

theorem spec_example:
  "\<exists>g v. load_enrich
        [\<lparr>satisfaction = Some ''satisfied'', Airline = ''X'', Year = 2010,
          Class = Some ''Business'', Type_of_Travel = t1,
          Departure_Delay = dd1, Arrival_Delay = ad1\<rparr>,
         \<lparr>satisfaction = Some ''neutral'', Airline = ''X'', Year = 2012,
          Class = Some ''Business'', Type_of_Travel = t2,
          Departure_Delay = dd2, Arrival_Delay = ad2\<rparr>,
         \<lparr>satisfaction = Some ''dissatisfied'', Airline = ''Y'', Year = 2015,
          Class = Some ''Eco'', Type_of_Travel = t3,
          Departure_Delay = dd3, Arrival_Delay = ad3\<rparr>] = Inr g
     \<and> render g n 2012 [''X''] [] [] False = Inr v
     \<and> filtered (df g) [''X''] [] [] 2012 = take 2 (df g)
     \<and> current_year_label v = 2012
     \<and> total_records (kpi_row v) = 2 \<and> sat (kpi_row v) = 1 \<and> diss (kpi_row v) = 1
     \<and> sat_pct (kpi_row v) = 50
     \<and> top_fig v = ([''neutral or dissatisfied'', ''satisfied'', ''Total''],
                     [(''X'', [(''neutral or dissatisfied'', 1), (''satisfied'', 1), (''Total'', 2)])])
     \<and> trend_satisfied v = Some ([2010, 2012], [1, 0])
     \<and> trend_dissatisfied v = Some ([2010, 2012], [0, 1])
     \<and> map Year (facet_fig v) = [2012]
     \<and> pie_counts v = [(''neutral or dissatisfied'', 1)]
     \<and> series_get (pie_counts v) ''satisfied'' 0 = 0
     \<and> series_get (pie_counts v) ''neutral or dissatisfied'' 0 = 1"
proof -
  define e1 where "e1 = enrich \<lparr>satisfaction = Some ''satisfied'', Airline = ''X'', Year = 2010,
          Class = Some ''Business'', Type_of_Travel = t1,
          Departure_Delay = dd1, Arrival_Delay = ad1\<rparr>"
  define e2 where "e2 = enrich \<lparr>satisfaction = Some ''neutral'', Airline = ''X'', Year = 2012,
          Class = Some ''Business'', Type_of_Travel = t2,
          Departure_Delay = dd2, Arrival_Delay = ad2\<rparr>"
  define e3 where "e3 = enrich \<lparr>satisfaction = Some ''dissatisfied'', Airline = ''Y'', Year = 2015,
          Class = Some ''Eco'', Type_of_Travel = t3,
          Departure_Delay = dd3, Arrival_Delay = ad3\<rparr>"
  define g where "g = \<lparr>df = [e1, e2, e3], year_min = 2010, year_max = 2015\<rparr>"
  have f1: "Airline e1 = ''X''" "Year e1 = 2010" "Class e1 = Some ''Business''"
    "satisfaction_norm e1 = ''satisfied''"
    by (simp_all add: e1_def Airline_enrich Year_enrich satisfaction_norm_enrich norm_examples
        enrich_def csv_row.defs row.defs)
  have f2: "Airline e2 = ''X''" "Year e2 = 2012" "Class e2 = Some ''Business''"
    "satisfaction_norm e2 = ''neutral or dissatisfied''"
    by (simp_all add: e2_def Airline_enrich Year_enrich satisfaction_norm_enrich norm_examples
        enrich_def csv_row.defs row.defs)
  have f3: "Airline e3 = ''Y''" "Year e3 = 2015" "Class e3 = Some ''Eco''"
    "satisfaction_norm e3 = ''neutral or dissatisfied''"
    by (simp_all add: e3_def Airline_enrich Year_enrich satisfaction_norm_enrich norm_examples
        enrich_def csv_row.defs row.defs)
  have ld: "load_enrich
        [\<lparr>satisfaction = Some ''satisfied'', Airline = ''X'', Year = 2010,
          Class = Some ''Business'', Type_of_Travel = t1,
          Departure_Delay = dd1, Arrival_Delay = ad1\<rparr>,
         \<lparr>satisfaction = Some ''neutral'', Airline = ''X'', Year = 2012,
          Class = Some ''Business'', Type_of_Travel = t2,
          Departure_Delay = dd2, Arrival_Delay = ad2\<rparr>,
         \<lparr>satisfaction = Some ''dissatisfied'', Airline = ''Y'', Year = 2015,
          Class = Some ''Eco'', Type_of_Travel = t3,
          Departure_Delay = dd3, Arrival_Delay = ad3\<rparr>] = Inr g"
    by (simp add: load_enrich_def series_min_def series_max_def Let_def Year_enrich g_def
        e1_def e2_def e3_def)
  have d: "filtered (df g) [''X''] [] [] 2012 = [e1, e2]"
    by (simp add: filtered_eq_filter g_def f1 f2 f3)
  obtain v where v: "render g n 2012 [''X''] [] [] False = Inr v"
     and cy: "current_year_label v = 2012"
     and k: "compute_kpis [e1, e2] 2012 = Inr (kpi_row v)"
     and tp: "top_airlines [e1, e2] = Inr (top_fig v)"
     and fc: "facet_fig v = year_slice [e1, e2] 2012"
     and ts: "trend_satisfied v = trace (year_trend [e1, e2] 2012) ''satisfied''"
     and td: "trend_dissatisfied v = trace (year_trend [e1, e2] 2012) ''neutral or dissatisfied''"
     and pc: "pie_counts v = value_counts (map satisfaction_norm (year_slice [e1, e2] 2012))"
    using render_Inr [OF cursor_paused, of g n 2012 "[''X'']" "[]" "[]"] unfolding d by blast
  have kp: "total_records (kpi_row v) = 2 \<and> sat (kpi_row v) = 1 \<and> diss (kpi_row v) = 1
     \<and> sat_pct (kpi_row v) = 50"
  proof -
    from k have "kpi_row v = projr (compute_kpis [e1, e2] 2012)" by simp
    then show ?thesis by (simp add: compute_kpis_Inr f1 f2)
  qed
  have ys: "year_slice [e1, e2] 2012 = [e2]"
    by (simp add: year_slice_def loc_mask_def f1 f2)
  have yt: "year_trend [e1, e2] 2012
      = ([''neutral or dissatisfied'', ''satisfied''],
         [(2010, [(''neutral or dissatisfied'', 0), (''satisfied'', 1)]),
          (2012, [(''neutral or dissatisfied'', 1), (''satisfied'', 0)])])"
    by (simp add: year_trend_def unstack_counts_def f1 f2)
  have top: "top_fig v = ([''neutral or dissatisfied'', ''satisfied'', ''Total''],
                     [(''X'', [(''neutral or dissatisfied'', 1), (''satisfied'', 1), (''Total'', 2)])])"
  proof -
    from tp have "top_fig v = projr (top_airlines [e1, e2])" by simp
    then show ?thesis
      by (simp add: top_airlines_def unstack_counts_def default_column_def
          assign_total_def sort_values_desc_def sort_desc_def cell_def f1 f2)
  qed
  have pie: "pie_counts v = [(''neutral or dissatisfied'', 1)]"
    unfolding pc ys by (simp add: value_counts_def uniq_def sort_desc_def f2)
  have tr: "trend_satisfied v = Some ([2010, 2012], [1, 0])"
    "trend_dissatisfied v = Some ([2010, 2012], [0, 1])"
    unfolding ts td yt by (simp_all add: trace_def cell_def)
  have tk: "filtered (df g) [''X''] [] [] 2012 = take 2 (df g)"
    unfolding d by (simp add: g_def)
  have fy: "map Year (facet_fig v) = [2012]"
    unfolding fc ys by (simp add: f2)
  have sg: "series_get (pie_counts v) ''satisfied'' 0 = 0"
    "series_get (pie_counts v) ''neutral or dissatisfied'' 0 = 1"
    unfolding pie by (simp_all add: series_get_def)
  show ?thesis
    by (rule exI [of _ g], rule exI [of _ v])
      (simp only: ld v tk cy kp top tr pie [symmetric] fy sg simp_thms)
qed

end
